theory Spec2Isabelle
  imports Main "HOL-Library.Sublist"
begin

section \<open>Values of the report service\<close>

text \<open>
  Both locators walk the value that \<^verbatim>\<open>response.json()\<close> hands them, so the model works
  on decoded JSON values. \<open>JNull\<close> is Python's \<^verbatim>\<open>None\<close>. A dict is an association list in
  insertion order, read through \<open>map_of\<close>. Numbers are kept as integers: the code
  never computes with one, it only tests it for zero or rejects it by type.
\<close>

datatype json =
    JNull
  | JBool bool
  | JNum int
  | JStr string
  | JArr "json list"
  | JObj "(string \<times> json) list"

datatype error =
    TypeError
  | AttributeError
  | ConnectionError
  | Timeout
  | HTTPError nat
  | JSONDecodeError

text \<open>Truth value of a Python object, as \<^verbatim>\<open>if x:\<close> tests it.\<close>

fun truthy :: "json \<Rightarrow> bool" where
  "truthy JNull = False"
| "truthy (JBool b) = b"
| "truthy (JNum i) = (i \<noteq> 0)"
| "truthy (JStr s) = (s \<noteq> [])"
| "truthy (JArr xs) = (xs \<noteq> [])"
| "truthy (JObj d) = (d \<noteq> [])"

text \<open>\<^verbatim>\<open>x.get(k, default)\<close>: only a dict has the method.\<close>

fun py_get_default :: "json \<Rightarrow> string \<Rightarrow> json \<Rightarrow> error + json" where
  "py_get_default (JObj d) k dflt = Inr (case map_of d k of None \<Rightarrow> dflt | Some v \<Rightarrow> v)"
| "py_get_default _ k dflt = Inl AttributeError"

definition py_get :: "json \<Rightarrow> string \<Rightarrow> error + json" where
  "py_get x k = py_get_default x k JNull"

text \<open>\<^verbatim>\<open>for x in v\<close> and \<^verbatim>\<open>list.extend(v)\<close>: a list yields its elements, a string its
  characters as one-character strings, a dict its keys; nothing else is iterable.\<close>

fun py_iter :: "json \<Rightarrow> error + json list" where
  "py_iter (JArr xs) = Inr xs"
| "py_iter (JStr s) = Inr (map (\<lambda>c. JStr [c]) s)"
| "py_iter (JObj d) = Inr (map JStr (remdups (map fst d)))"
| "py_iter _ = Inl TypeError"

text \<open>\<^verbatim>\<open>s in v\<close> for a string \<open>s\<close>: substring of a string, element of a list, key of a
  dict; a \<^verbatim>\<open>TypeError\<close> on anything else.\<close>

fun py_in :: "string \<Rightarrow> json \<Rightarrow> error + bool" where
  "py_in s (JStr t) = Inr (sublist s t)"
| "py_in s (JArr xs) = Inr (JStr s \<in> set xs)"
| "py_in s (JObj d) = Inr (s \<in> fst ` set d)"
| "py_in s _ = Inl TypeError"

text \<open>A measure for the loops below: what a value can still put on a work list.\<close>

primrec jweight :: "json \<Rightarrow> nat" where
  "jweight JNull = 0"
| "jweight (JBool b) = 0"
| "jweight (JNum i) = 0"
| "jweight (JStr s) = length s"
| "jweight (JArr xs) = sum_list (map (\<lambda>w. Suc w) (map jweight xs))"
| "jweight (JObj d) = sum_list (map (\<lambda>p. Suc (snd p)) (map (map_prod id jweight) d))"

definition eweight :: "json \<Rightarrow> nat" where
  "eweight x = (case x of JObj d \<Rightarrow> Suc (jweight x) | _ \<Rightarrow> 1)"

definition lweight :: "json list \<Rightarrow> nat" where
  "lweight xs = sum_list (map eweight xs)"

section \<open>Suite Locator\<close>

text \<open>
  \<^verbatim>\<open>find_test_in_data\<close>, lines 36 to 70. The work list is a Python list used as a stack:
  \<^verbatim>\<open>pop()\<close> takes the last element and \<^verbatim>\<open>extend\<close> appends, so the top of the stack is the
  end of the list. \<open>find_loop\<close> is the \<^verbatim>\<open>while stack:\<close> loop on the state
  \<open>(stack, current_suite)\<close>.
\<close>

function find_loop :: "json list \<Rightarrow> json \<Rightarrow> string \<Rightarrow> string \<Rightarrow> error + json" where
  "find_loop stack current_suite suite_name test_name =
    (if stack = [] then Inr JNull
     else
       let node = last stack; stack1 = butlast stack in
       (case node of
          JObj d \<Rightarrow>
            (case py_get_default node ''name'' (JStr []) of
               Inl e \<Rightarrow> Inl e
             | Inr name \<Rightarrow>
                (case (case py_in ''TestSuite'' name of
                         Inl e \<Rightarrow> Inl e
                       | Inr True \<Rightarrow> Inr True
                       | Inr False \<Rightarrow> py_in ''Test'' name) of
                   Inl e \<Rightarrow> Inl e
                 | Inr suite_like \<Rightarrow>
                    let current_suite1 = (if suite_like then name else current_suite) in
                    if current_suite1 = JStr suite_name \<and> name = JStr test_name
                       \<and> ''uid'' \<in> fst ` set d
                    then Inr node
                    else if ''children'' \<in> fst ` set d
                    then (case py_iter (the (map_of d ''children'')) of
                            Inl e \<Rightarrow> Inl e
                          | Inr cs \<Rightarrow>
                              find_loop (stack1 @ cs) current_suite1 suite_name test_name)
                    else find_loop stack1 current_suite1 suite_name test_name))
        | _ \<Rightarrow> find_loop stack1 current_suite suite_name test_name))"
  by pat_completeness auto

lemma lweight_iter: "py_iter v = Inr cs \<Longrightarrow> lweight cs \<le> jweight v"
proof (cases v)
  case (JArr xs)
  assume "py_iter v = Inr cs"
  with JArr have cs: "cs = xs" by simp
  have "sum_list (map eweight xs) \<le> sum_list (map (\<lambda>x. Suc (jweight x)) xs)"
    by (rule sum_list_mono) (simp add: eweight_def split: json.split)
  with JArr cs show ?thesis by (simp add: lweight_def comp_def)
next
  case (JStr s)
  assume "py_iter v = Inr cs"
  with JStr show ?thesis by (auto simp: lweight_def comp_def eweight_def sum_list_triv)
next
  case (JObj d)
  assume "py_iter v = Inr cs"
  with JObj have "lweight cs = length (remdups (map fst d))"
    by (auto simp: lweight_def comp_def eweight_def sum_list_triv)
  also have "\<dots> \<le> length d" using length_remdups_leq [of "map fst d"] by simp
  also have "\<dots> \<le> sum_list (map (\<lambda>p. Suc (jweight (snd p))) d)"
    by (induction d) auto
  finally show ?thesis using JObj by (simp add: comp_def)
qed simp_all

lemma jweight_lookup: "map_of d k = Some v \<Longrightarrow> jweight v < jweight (JObj d)"
  by (induction d) (auto simp: comp_def split: if_splits)

lemma lweight_snoc: "stack \<noteq> [] \<Longrightarrow> lweight stack = lweight (butlast stack) + eweight (last stack)"
  by (induction stack rule: rev_induct) (auto simp: lweight_def)

lemma eweight_pos: "0 < eweight x"
  by (simp add: eweight_def split: json.split)

lemma lweight_append: "lweight (xs @ ys) = lweight xs + lweight ys"
  by (simp add: lweight_def)

lemma pop_decreases: "stack \<noteq> [] \<Longrightarrow> lweight (butlast stack) < lweight stack"
  using eweight_pos [of "last stack"] by (simp add: lweight_snoc)

lemma push_decreases:
  assumes "stack \<noteq> []" and "JObj d = last stack" and "(k, w) \<in> set d"
    and "py_iter (the (map_of d k)) = Inr cs"
  shows "lweight (butlast stack @ cs) < lweight stack"
proof -
  from assms(3) obtain v where v: "map_of d k = Some v"
    by (metis weak_map_of_SomeI)
  with assms(4) have "lweight cs \<le> jweight v" by (simp add: lweight_iter)
  also have "\<dots> < jweight (JObj d)" using v by (rule jweight_lookup)
  also have "\<dots> < eweight (last stack)" by (simp add: assms(2) [symmetric] eweight_def)
  finally show ?thesis using assms(1) by (simp add: lweight_snoc lweight_append)
qed

termination find_loop
  by (relation "measure (\<lambda>(stack, _). lweight stack)")
     (auto simp: pop_decreases intro: push_decreases)

declare find_loop.simps [simp del]

definition find_test_in_data :: "json \<Rightarrow> string \<Rightarrow> string \<Rightarrow> error + json" where
  "find_test_in_data json_data suite_name test_name =
     find_loop [json_data] JNull suite_name test_name"

subsection \<open>The traversal, as the specification describes it\<close>

text \<open>
  A well-formed ReportNode: a dict whose \<^verbatim>\<open>name\<close>, when present, is a string and whose
  \<^verbatim>\<open>children\<close>, when present, is a list of well-formed ReportNodes. The \<^verbatim>\<open>uid\<close> is
  not constrained.
\<close>

definition list_field :: "string \<Rightarrow> json \<Rightarrow> json list" where
  "list_field k n =
     (case n of
        JObj d \<Rightarrow> (case map_of d k of Some (JArr xs) \<Rightarrow> xs | _ \<Rightarrow> [])
      | _ \<Rightarrow> [])"

definition list_field_ok :: "string \<Rightarrow> json \<Rightarrow> bool" where
  "list_field_ok k n =
     (case n of
        JObj d \<Rightarrow> (case map_of d k of None \<Rightarrow> True | Some (JArr xs) \<Rightarrow> True | _ \<Rightarrow> False)
      | _ \<Rightarrow> False)"

lemma size_lookup:
  "map_of d k = Some v \<Longrightarrow> size v < size (JObj d)"
  by (induction d) (auto split: if_splits)

lemma size_element:
  "x \<in> set xs \<Longrightarrow> size x < size (JArr xs)"
  by (induction xs) auto

lemma list_field_size [termination_simp]:
  assumes "x \<in> set (list_field k n)"
  shows "size x < size n"
proof (cases n)
  case (JObj d)
  show ?thesis
  proof (cases "map_of d k")
    case None
    with JObj assms show ?thesis by (simp add: list_field_def)
  next
    case (Some v)
    show ?thesis
    proof (cases v)
      case (JArr xs)
      with JObj Some assms have "x \<in> set xs" by (simp add: list_field_def)
      then have "size x < size v" unfolding JArr by (rule size_element)
      also have "\<dots> < size n" unfolding JObj using Some by (rule size_lookup)
      finally show ?thesis .
    qed (use JObj Some assms in \<open>simp_all add: list_field_def\<close>)
  qed
qed (use assms in \<open>simp_all add: list_field_def\<close>)

definition node_children :: "json \<Rightarrow> json list" where
  "node_children n = list_field ''children'' n"

lemma node_children_size [termination_simp]:
  "x \<in> set (node_children n) \<Longrightarrow> size x < size n"
  by (simp add: node_children_def list_field_size)

definition node_name :: "json \<Rightarrow> json" where
  "node_name n =
     (case n of
        JObj d \<Rightarrow> (case map_of d ''name'' of None \<Rightarrow> JStr [] | Some v \<Rightarrow> v)
      | _ \<Rightarrow> JNull)"

definition has_uid :: "json \<Rightarrow> bool" where
  "has_uid n = (case n of JObj d \<Rightarrow> ''uid'' \<in> fst ` set d | _ \<Rightarrow> False)"

definition is_str :: "json \<Rightarrow> bool" where
  "is_str v = (case v of JStr s \<Rightarrow> True | _ \<Rightarrow> False)"

fun wf_node :: "json \<Rightarrow> bool" where
  "wf_node n =
     (is_str (node_name n) \<and> list_field_ok ''children'' n
      \<and> (\<forall>c \<in> set (node_children n). wf_node c))"

declare wf_node.simps [simp del]

text \<open>A suite-like node: its name contains "TestSuite" or "Test".\<close>

definition suite_like :: "json \<Rightarrow> bool" where
  "suite_like n =
     (case node_name n of JStr s \<Rightarrow> sublist ''TestSuite'' s \<or> sublist ''Test'' s | _ \<Rightarrow> False)"

text \<open>The order in which nodes are visited: a node, then the subtrees of its children,
  the last listed child first.\<close>

fun visit_order :: "json \<Rightarrow> json list" where
  "visit_order n = n # concat (map visit_order (rev (node_children n)))"

declare visit_order.simps [simp del]

text \<open>The suite context after a sequence of visits that started in context \<open>cur\<close>:
  the name of the most recently visited suite-like node, and \<open>cur\<close> when there is none.\<close>

definition context_after :: "json \<Rightarrow> json list \<Rightarrow> json" where
  "context_after cur visited =
     (case filter suite_like (rev visited) of [] \<Rightarrow> cur | n # _ \<Rightarrow> node_name n)"

text \<open>The match condition, on the context \<open>c\<close> in force at the node.\<close>

definition node_matches :: "string \<Rightarrow> string \<Rightarrow> json \<Rightarrow> json \<Rightarrow> bool" where
  "node_matches suite_name test_name c n =
     (c = JStr suite_name \<and> node_name n = JStr test_name \<and> has_uid n)"

text \<open>The node at position \<open>i\<close> of a visit sequence matches: the context is the one after
  the visits up to and including that node.\<close>

definition matches_at :: "json \<Rightarrow> string \<Rightarrow> string \<Rightarrow> json list \<Rightarrow> nat \<Rightarrow> bool" where
  "matches_at cur suite_name test_name vs i =
     node_matches suite_name test_name (context_after cur (take (Suc i) vs)) (vs ! i)"

text \<open>The scan of a visit sequence with one context value, stopping at the first match.\<close>

fun first_match :: "string \<Rightarrow> string \<Rightarrow> json \<Rightarrow> json list \<Rightarrow> json" where
  "first_match suite_name test_name cur [] = JNull"
| "first_match suite_name test_name cur (n # ns) =
     (let cur1 = (if suite_like n then node_name n else cur) in
      if node_matches suite_name test_name cur1 n then n
      else first_match suite_name test_name cur1 ns)"

text \<open>What the specification calls the target being present: the nodes named
  \<open>test_name\<close> that carry a \<^verbatim>\<open>uid\<close> and are listed among the children of a node named
  \<open>suite_name\<close>.\<close>

definition target_occurrences :: "string \<Rightarrow> string \<Rightarrow> json \<Rightarrow> json list" where
  "target_occurrences suite_name test_name tree =
     filter (\<lambda>c. node_name c = JStr test_name \<and> has_uid c)
       (concat (map node_children
          (filter (\<lambda>n. node_name n = JStr suite_name) (visit_order tree))))"

section \<open>Attachment Locator\<close>

text \<open>
  \<^verbatim>\<open>get_attachment_by_name\<close>, lines 73 to 111. The inner loop over a list of attachments
  returns the first entry whose \<^verbatim>\<open>name\<close> equals the name sought; \<open>None\<close> stands for
  the loop running to its end.
\<close>

fun search_atts :: "string \<Rightarrow> json list \<Rightarrow> error + json option" where
  "search_atts name [] = Inr None"
| "search_atts name (att # atts) =
     (case py_get att ''name'' of
        Inl e \<Rightarrow> Inl e
      | Inr v \<Rightarrow> if v = JStr name then Inr (Some att) else search_atts name atts)"

text \<open>The nested helper \<^verbatim>\<open>_search_steps\<close>: it returns the attachment, or \<^verbatim>\<open>None\<close>. The
  recursion is as deep as the steps are nested; the interpreter's limit on that depth is
  not part of the model.\<close>

function search_steps :: "string \<Rightarrow> json list \<Rightarrow> error + json" where
  "search_steps name [] = Inr JNull"
| "search_steps name (step # steps) =
     (case py_get_default step ''attachments'' (JArr []) of
        Inl e \<Rightarrow> Inl e
      | Inr av \<Rightarrow>
         (case py_iter av of
            Inl e \<Rightarrow> Inl e
          | Inr atts \<Rightarrow>
             (case search_atts name atts of
                Inl e \<Rightarrow> Inl e
              | Inr (Some att) \<Rightarrow> Inr att
              | Inr None \<Rightarrow>
                 (case py_get step ''steps'' of
                    Inl e \<Rightarrow> Inl e
                  | Inr sv \<Rightarrow>
                     if truthy sv
                     then (case py_iter sv of
                             Inl e \<Rightarrow> Inl e
                           | Inr sub \<Rightarrow>
                              (case search_steps name sub of
                                 Inl e \<Rightarrow> Inl e
                               | Inr result \<Rightarrow>
                                  if truthy result then Inr result
                                  else search_steps name steps))
                     else search_steps name steps))))"
  by pat_completeness auto

lemma jweight_get: "py_get step k = Inr sv \<Longrightarrow> jweight sv < eweight step"
proof (cases step)
  case (JObj d)
  assume "py_get step k = Inr sv"
  with JObj have sv: "sv = (case map_of d k of None \<Rightarrow> JNull | Some v \<Rightarrow> v)"
    by (simp add: py_get_def)
  show ?thesis
  proof (cases "map_of d k")
    case None
    with sv JObj show ?thesis by (simp add: eweight_def)
  next
    case (Some v)
    then have "jweight v < jweight (JObj d)" by (rule jweight_lookup)
    with sv Some JObj show ?thesis by (simp add: eweight_def)
  qed
qed (simp_all add: py_get_def)

lemma sub_decreases:
  assumes "py_get step k = Inr sv" and "py_iter sv = Inr sub"
  shows "lweight sub < lweight (step # steps)"
proof -
  have "lweight sub \<le> jweight sv" using assms(2) by (rule lweight_iter)
  also have "\<dots> < eweight step" using assms(1) by (rule jweight_get)
  finally show ?thesis by (simp add: lweight_def)
qed

lemma rest_decreases: "lweight steps < lweight (step # steps)"
  using eweight_pos [of step] by (simp add: lweight_def)

termination search_steps
proof (relation "measure (\<lambda>(name, steps). lweight steps)", goal_cases)
  case 1
  show ?case by simp
next
  case (2 name step steps av atts r sv sub)
  then show ?case by (simp add: sub_decreases [of step "''steps''" sv])
next
  case 3
  show ?case by (simp add: rest_decreases)
next
  case 4
  show ?case by (simp add: rest_decreases)
qed

text \<open>The loop over a list of stages, written out twice in the source (lines 90 to 98
  for \<^verbatim>\<open>beforeStages\<close>, lines 101 to 109 for \<^verbatim>\<open>afterStages\<close>) with the same body;
  \<open>None\<close> stands for the loop running to its end.\<close>

fun search_stages :: "string \<Rightarrow> json list \<Rightarrow> error + json option" where
  "search_stages name [] = Inr None"
| "search_stages name (stage # stages) =
     (case py_get_default stage ''attachments'' (JArr []) of
        Inl e \<Rightarrow> Inl e
      | Inr av \<Rightarrow>
         (case py_iter av of
            Inl e \<Rightarrow> Inl e
          | Inr atts \<Rightarrow>
             (case search_atts name atts of
                Inl e \<Rightarrow> Inl e
              | Inr (Some att) \<Rightarrow> Inr (Some att)
              | Inr None \<Rightarrow>
                 (case py_get stage ''steps'' of
                    Inl e \<Rightarrow> Inl e
                  | Inr sv \<Rightarrow>
                     if truthy sv
                     then (case py_iter sv of
                             Inl e \<Rightarrow> Inl e
                           | Inr sub \<Rightarrow>
                              (case search_steps name sub of
                                 Inl e \<Rightarrow> Inl e
                               | Inr result \<Rightarrow>
                                  if truthy result then Inr (Some result)
                                  else search_stages name stages))
                     else search_stages name stages))))"

definition get_attachment_by_name :: "json \<Rightarrow> string \<Rightarrow> error + json" where
  "get_attachment_by_name test_result name =
     (case py_get_default test_result ''beforeStages'' (JArr []) of
        Inl e \<Rightarrow> Inl e
      | Inr bv \<Rightarrow>
         (case py_iter bv of
            Inl e \<Rightarrow> Inl e
          | Inr stages_before \<Rightarrow>
             (case search_stages name stages_before of
                Inl e \<Rightarrow> Inl e
              | Inr (Some att) \<Rightarrow> Inr att
              | Inr None \<Rightarrow>
                 (case py_get_default test_result ''afterStages'' (JArr []) of
                    Inl e \<Rightarrow> Inl e
                  | Inr av \<Rightarrow>
                     (case py_iter av of
                        Inl e \<Rightarrow> Inl e
                      | Inr stages_after \<Rightarrow>
                         (case search_stages name stages_after of
                            Inl e \<Rightarrow> Inl e
                          | Inr (Some att) \<Rightarrow> Inr att
                          | Inr None \<Rightarrow> Inr JNull))))))"

subsection \<open>The search order, as the specification describes it\<close>

text \<open>
  A well-formed Stage or Step: a dict whose \<^verbatim>\<open>attachments\<close>, when present, is a list of
  dicts and whose \<^verbatim>\<open>steps\<close>, when present, is a list of well-formed Steps. A well-formed
  ExecutionRecord: a dict whose \<^verbatim>\<open>beforeStages\<close> and \<^verbatim>\<open>afterStages\<close>, when present, are
  lists of well-formed Stages.
\<close>

definition is_dict :: "json \<Rightarrow> bool" where
  "is_dict v = (case v of JObj d \<Rightarrow> True | _ \<Rightarrow> False)"









section \<open>Lookup Coordinator\<close>

text \<open>
  \<^verbatim>\<open>get_test_attachments\<close>, lines 114 to 156. The reporting service, the configuration
  and Python's rendering of values inside f-strings are outside the source file and are
  parameters of the model: \<open>requests_get\<close> answers a URL with a response or raises,
  \<open>str_other\<close> renders a value that is not a string, \<open>str_error\<close> renders an exception.
  A response whose body is not JSON has \<open>body = None\<close>.
\<close>

record response =
  status_code :: nat
  body :: "json option"

record env =
  ALLURE_SERVER :: string
  requests_get :: "string \<Rightarrow> error + response"
  str_other :: "json \<Rightarrow> string"
  str_error :: "error \<Rightarrow> string"

text \<open>What the coordinator does to the outside, in order: the requests it sends and the
  lines it logs.\<close>

datatype event =
    HttpGet string
  | LogInfo string
  | LogError string

definition format_value :: "env \<Rightarrow> json \<Rightarrow> string" where
  "format_value e v =
     (case v of
        JStr s \<Rightarrow> s
      | JNull \<Rightarrow> ''None''
      | JBool b \<Rightarrow> (if b then ''True'' else ''False'')
      | _ \<Rightarrow> str_other e v)"

text \<open>\<^verbatim>\<open>requests.get\<close>, \<^verbatim>\<open>raise_for_status()\<close> (an error for the statuses 400 to 599) and
  \<^verbatim>\<open>json()\<close>.\<close>

definition fetch_json :: "env \<Rightarrow> string \<Rightarrow> error + json" where
  "fetch_json e url =
     (case requests_get e url of
        Inl err \<Rightarrow> Inl err
      | Inr response \<Rightarrow>
         if 400 \<le> status_code response \<and> status_code response < 600
         then Inl (HTTPError (status_code response))
         else (case body response of None \<Rightarrow> Inl JSONDecodeError | Some v \<Rightarrow> Inr v))"

definition suites_url :: "env \<Rightarrow> string \<Rightarrow> string" where
  "suites_url e project_id =
     ALLURE_SERVER e @ ''/allure-docker-service/projects/'' @ project_id
       @ ''/reports/latest/data/suites.json''"

definition result_url :: "env \<Rightarrow> string \<Rightarrow> json \<Rightarrow> string" where
  "result_url e project_id test_uid =
     ALLURE_SERVER e @ ''/allure-docker-service/projects/'' @ project_id
       @ ''/reports/latest/data/test-cases/'' @ format_value e test_uid @ ''.json''"

text \<open>The body of the \<^verbatim>\<open>try\<close> block: its outcome, an exception or the value returned, and
  the events so far.\<close>

definition try_block ::
  "env \<Rightarrow> string \<Rightarrow> string \<Rightarrow> string \<Rightarrow> (error + json) \<times> event list" where
  "try_block e project_id suite_name test_name =
     (let url = suites_url e project_id;
          log1 = [LogInfo (''Fetching suites from: '' @ url), HttpGet url]
      in
      case fetch_json e url of
        Inl err \<Rightarrow> (Inl err, log1)
      | Inr suites_data \<Rightarrow>
         (case find_test_in_data suites_data suite_name test_name of
            Inl err \<Rightarrow> (Inl err, log1)
          | Inr test_data \<Rightarrow>
             if \<not> truthy test_data
             then (Inr JNull,
                   log1 @ [LogError (''Test not found: '' @ suite_name @ ''/'' @ test_name)])
             else
               (case py_get test_data ''uid'' of
                  Inl err \<Rightarrow> (Inl err, log1)
                | Inr test_uid \<Rightarrow>
                   if truthy test_uid
                   then
                     (let rurl = result_url e project_id test_uid;
                          log2 = log1 @ [LogInfo (''Fetching test details from: '' @ rurl),
                                         HttpGet rurl]
                      in
                      case fetch_json e rurl of
                        Inl err \<Rightarrow> (Inl err, log2)
                      | Inr result_data \<Rightarrow>
                         (case get_attachment_by_name result_data ''Test Tracing'' of
                            Inl err \<Rightarrow> (Inl err, log2)
                          | Inr attachment_dict \<Rightarrow>
                             (case (if truthy attachment_dict
                                    then py_get attachment_dict ''source''
                                    else Inr JNull) of
                                Inl err \<Rightarrow> (Inl err, log2)
                              | Inr source \<Rightarrow>
                                 (Inr source,
                                  log2 @ [LogInfo (''Found attachment: ''
                                                    @ format_value e source)]))))
                   else (Inr JNull, log1))))"

text \<open>The \<^verbatim>\<open>except Exception\<close> clause: log the exception and return \<^verbatim>\<open>None\<close>.\<close>

definition get_test_attachments ::
  "env \<Rightarrow> string \<Rightarrow> string \<Rightarrow> string \<Rightarrow> json \<times> event list" where
  "get_test_attachments e project_id suite_name test_name =
     (case try_block e project_id suite_name test_name of
        (Inl err, log) \<Rightarrow>
          (JNull, log @ [LogError (''Error fetching test attachments: '' @ str_error e err)])
      | (Inr v, log) \<Rightarrow> (v, log))"

text \<open>The requests a run sent, in order.\<close>

fun requests_sent :: "event list \<Rightarrow> string list" where
  "requests_sent [] = []"
| "requests_sent (HttpGet url # es) = url # requests_sent es"
| "requests_sent (LogInfo m # es) = requests_sent es"
| "requests_sent (LogError m # es) = requests_sent es"


section \<open>Fixtures\<close>

text \<open>A suite whose first child is the test and whose second child is a nested suite.\<close>

definition leaf_test_a :: json where
  "leaf_test_a = JObj [(''name'', JStr ''test_a''), (''uid'', JStr ''u1'')]"

definition suite_with_nested :: json where
  "suite_with_nested =
     JObj [(''name'', JStr ''TestSuiteA''),
           (''children'', JArr [leaf_test_a, JObj [(''name'', JStr ''TestSuiteNested'')]])]"

text \<open>Two suites of the same name under one root, each holding a test of the same name.\<close>

definition twin_first :: json where
  "twin_first = JObj [(''name'', JStr ''test_a''), (''uid'', JStr ''first'')]"

definition twin_second :: json where
  "twin_second = JObj [(''name'', JStr ''test_a''), (''uid'', JStr ''second'')]"

definition twin_suites :: json where
  "twin_suites =
     JObj [(''name'', JStr ''root''),
           (''children'',
            JArr [JObj [(''name'', JStr ''TestSuiteA''), (''children'', JArr [twin_first])],
                  JObj [(''name'', JStr ''TestSuiteA''), (''children'', JArr [twin_second])]])]"

text \<open>The suite-summary tree and the execution record of the end-to-end scenario.\<close>

definition scenario_test :: json where
  "scenario_test =
     JObj [(''name'', JStr ''test_scans_list_artifact_pagination''), (''uid'', JStr ''abc123'')]"

definition scenario_tree :: json where
  "scenario_tree =
     JObj [(''name'', JStr ''TestSuitePaginationScansList''),
           (''children'', JArr [scenario_test])]"

definition scenario_attachment :: json where
  "scenario_attachment =
     JObj [(''name'', JStr ''Test Tracing''), (''source'', JStr ''trace-file-xyz.zip'')]"

definition scenario_record :: json where
  "scenario_record =
     JObj [(''beforeStages'', JArr []),
           (''afterStages'',
            JArr [JObj [(''attachments'', JArr [scenario_attachment]), (''steps'', JArr [])]])]"




text \<open>A reporting service that serves a fixed set of documents and answers 404 to every
  other URL.\<close>

definition serve :: "(string \<times> json) list \<Rightarrow> string \<Rightarrow> error + response" where
  "serve docs url =
     (case map_of docs url of
        Some v \<Rightarrow> Inr \<lparr>status_code = 200, body = Some v\<rparr>
      | None \<Rightarrow> Inr \<lparr>status_code = 404, body = None\<rparr>)"

definition env_of :: "(string \<Rightarrow> error + response) \<Rightarrow> env" where
  "env_of get =
     \<lparr>ALLURE_SERVER = ''http://allure'', requests_get = get,
      str_other = (\<lambda>v. ''<value>''), str_error = (\<lambda>err. ''<error>'')\<rparr>"

definition scenario_env :: env where
  "scenario_env =
     env_of (serve
       [(''http://allure/allure-docker-service/projects/P1/reports/latest/data/suites.json'',
         scenario_tree),
        (''http://allure/allure-docker-service/projects/P1/reports/latest/data/test-cases/abc123.json'',
         scenario_record)])"



text \<open>A summary tree whose test carries an empty \<^verbatim>\<open>uid\<close>.\<close>

definition empty_uid_test :: json where
  "empty_uid_test = JObj [(''name'', JStr ''test_a''), (''uid'', JStr [])]"

definition empty_uid_tree :: json where
  "empty_uid_tree =
     JObj [(''name'', JStr ''TestSuiteA''), (''children'', JArr [empty_uid_test])]"

definition empty_uid_env :: env where
  "empty_uid_env =
     env_of (serve
       [(''http://allure/allure-docker-service/projects/P1/reports/latest/data/suites.json'',
         empty_uid_tree)])"

section \<open>Properties of the Suite Locator\<close>

lemma wf_node_dict: "wf_node n \<Longrightarrow> \<exists>d. n = JObj d"
  by (subst (asm) wf_node.simps) (cases n; simp add: list_field_ok_def)

lemma wf_node_children: "wf_node n \<Longrightarrow> c \<in> set (node_children n) \<Longrightarrow> wf_node c"
  by (subst (asm) wf_node.simps) simp

lemma wf_node_name: "wf_node n \<Longrightarrow> \<exists>s. node_name n = JStr s"
  by (subst (asm) wf_node.simps) (auto simp: is_str_def split: json.splits)

lemma find_loop_Nil: "find_loop [] cur s t = Inr JNull"
  by (simp add: find_loop.simps)

lemma find_loop_step:
  assumes "wf_node n"
  shows "find_loop (st @ [n]) cur s t =
     (let cur1 = (if suite_like n then node_name n else cur) in
      if node_matches s t cur1 n then Inr n
      else find_loop (st @ node_children n) cur1 s t)"
proof -
  from assms obtain d where d: "n = JObj d" using wf_node_dict by blast
  from assms obtain nm where nm: "node_name n = JStr nm" using wf_node_name by blast
  define SL where "SL = (sublist ''TestSuite'' nm \<or> sublist ''Test'' nm)"
  have ok: "list_field_ok ''children'' n" using assms by (subst (asm) wf_node.simps) simp
  have nmd: "(case map_of d ''name'' of None \<Rightarrow> JStr [] | Some v \<Rightarrow> v) = JStr nm"
    using nm d by (simp add: node_name_def)
  have sl: "(case py_in ''TestSuite'' (JStr nm) of
               Inl e \<Rightarrow> Inl e
             | Inr True \<Rightarrow> Inr True
             | Inr False \<Rightarrow> py_in ''Test'' (JStr nm)) = Inr SL"
    by (simp add: SL_def split: bool.split)
  have suite: "suite_like (JObj d) = SL"
    using nm d by (simp add: suite_like_def SL_def)
  have ch: "py_iter (the (map_of d ''children'')) = Inr (node_children (JObj d))"
    if "''children'' \<in> fst ` set d"
  proof -
    from that obtain v where v: "map_of d ''children'' = Some v"
      by (metis map_of_eq_None_iff not_Some_eq)
    with ok d show ?thesis
      by (cases v) (simp_all add: list_field_ok_def node_children_def list_field_def)
  qed
  have nch: "node_children (JObj d) = []" if "''children'' \<notin> fst ` set d"
  proof -
    from that have "map_of d ''children'' = None" by (simp add: map_of_eq_None_iff)
    then show ?thesis by (simp add: node_children_def list_field_def)
  qed
  have unfold: "find_loop (st @ [JObj d]) cur s t =
      (let cur1 = (if SL then JStr nm else cur) in
       if cur1 = JStr s \<and> JStr nm = JStr t \<and> ''uid'' \<in> fst ` set d then Inr (JObj d)
       else if ''children'' \<in> fst ` set d
         then (case py_iter (the (map_of d ''children'')) of
                 Inl e \<Rightarrow> Inl e
               | Inr cs \<Rightarrow> find_loop (st @ cs) cur1 s t)
         else find_loop st cur1 s t)"
    by (subst find_loop.simps) (simp add: Let_def nmd sl del: py_in.simps)
  show ?thesis
  proof (cases "''children'' \<in> fst ` set d")
    case True
    then show ?thesis
      unfolding d unfold
      by (simp add: Let_def ch suite node_matches_def has_uid_def nm [unfolded d])
  next
    case False
    then show ?thesis
      unfolding d unfold
      by (simp add: Let_def nch suite node_matches_def has_uid_def nm [unfolded d])
  qed
qed

lemma wf_push_decreases:
  assumes "wf_node n"
  shows "lweight (st @ node_children n) < lweight (st @ [n])"
proof -
  from assms obtain d where d: "n = JObj d" using wf_node_dict by blast
  show ?thesis
  proof (cases "map_of d ''children''")
    case None
    then have "node_children n = []" by (simp add: d node_children_def list_field_def)
    then show ?thesis using eweight_pos [of n] by (simp add: lweight_def)
  next
    case (Some v)
    have "py_iter v = Inr (node_children n) \<or> node_children n = []"
      using Some d by (cases v) (simp_all add: node_children_def list_field_def)
    then have "lweight (node_children n) \<le> jweight v"
    proof
      assume "py_iter v = Inr (node_children n)"
      then show ?thesis by (rule lweight_iter)
    next
      assume "node_children n = []"
      then show ?thesis by (simp add: lweight_def)
    qed
    also have "\<dots> < jweight (JObj d)" using Some by (rule jweight_lookup)
    finally show ?thesis by (simp add: lweight_append d eweight_def lweight_def)
  qed
qed


text \<open>The loop returns what the scan of the visit sequence returns: the stack holds the
  subtrees still to visit, its last element first.\<close>

lemma find_loop_first_match:
  "\<forall>x \<in> set stack. wf_node x \<Longrightarrow>
     find_loop stack cur s t =
       Inr (first_match s t cur (concat (map visit_order (rev stack))))"
proof (induction stack arbitrary: cur rule: measure_induct_rule [of lweight])
  case (less stack)
  show ?case
  proof (cases stack rule: rev_cases)
    case Nil
    then show ?thesis by (simp add: find_loop_Nil)
  next
    case (snoc st n)
    with less.prems have wf: "wf_node n" and wfst: "\<forall>x \<in> set st. wf_node x" by auto
    define cur1 where "cur1 = (if suite_like n then node_name n else cur)"
    have "visit_order n = n # concat (map visit_order (rev (node_children n)))"
      by (rule visit_order.simps)
    then have vo: "concat (map visit_order (rev stack)) =
        n # concat (map visit_order (rev (st @ node_children n)))"
      unfolding snoc by simp
    show ?thesis
    proof (cases "node_matches s t cur1 n")
      case True
      then show ?thesis
        unfolding vo unfolding snoc
        by (simp add: find_loop_step [OF wf] cur1_def Let_def)
    next
      case False
      have "\<forall>x \<in> set (st @ node_children n). wf_node x"
        using wfst wf_node_children [OF wf] by auto
      moreover have "lweight (st @ node_children n) < lweight stack"
        unfolding snoc using wf by (rule wf_push_decreases)
      ultimately have "find_loop (st @ node_children n) cur1 s t =
          Inr (first_match s t cur1 (concat (map visit_order (rev (st @ node_children n)))))"
        by (rule less.IH [rotated])
      with False show ?thesis
        unfolding vo unfolding snoc
        by (simp add: find_loop_step [OF wf] cur1_def Let_def)
    qed
  qed
qed

lemma context_after_Cons:
  "context_after cur (v # xs) = context_after (if suite_like v then node_name v else cur) xs"
  by (cases "filter suite_like (rev xs)") (simp_all add: context_after_def)

lemma matches_at_0:
  "matches_at cur s t (v # vs) 0 =
     node_matches s t (if suite_like v then node_name v else cur) v"
  by (simp add: matches_at_def context_after_def)

lemma matches_at_Suc:
  "matches_at cur s t (v # vs) (Suc i) =
     matches_at (if suite_like v then node_name v else cur) s t vs i"
  by (simp add: matches_at_def context_after_Cons)

lemma first_match_least:
  "i < length vs \<Longrightarrow> matches_at cur s t vs i \<Longrightarrow> \<forall>j<i. \<not> matches_at cur s t vs j \<Longrightarrow>
     first_match s t cur vs = vs ! i"
proof (induction vs arbitrary: cur i)
  case Nil
  then show ?case by simp
next
  case (Cons v vs)
  show ?case
  proof (cases i)
    case 0
    with Cons.prems show ?thesis by (simp add: matches_at_0 Let_def)
  next
    case (Suc k)
    with Cons.prems have "\<not> matches_at cur s t (v # vs) 0" by blast
    then have nm: "\<not> node_matches s t (if suite_like v then node_name v else cur) v"
      by (simp add: matches_at_0)
    have "first_match s t (if suite_like v then node_name v else cur) vs = vs ! k"
    proof (rule Cons.IH)
      show "k < length vs" using Cons.prems Suc by simp
      show "matches_at (if suite_like v then node_name v else cur) s t vs k"
        using Cons.prems Suc by (simp add: matches_at_Suc)
      show "\<forall>j<k. \<not> matches_at (if suite_like v then node_name v else cur) s t vs j"
      proof (intro allI impI)
        fix j assume "j < k"
        then have "Suc j < i" using Suc by simp
        with Cons.prems have "\<not> matches_at cur s t (v # vs) (Suc j)" by blast
        then show "\<not> matches_at (if suite_like v then node_name v else cur) s t vs j"
          by (simp add: matches_at_Suc)
      qed
    qed
    with nm Suc show ?thesis by (simp add: Let_def)
  qed
qed

lemma first_match_none:
  "\<forall>i<length vs. \<not> matches_at cur s t vs i \<Longrightarrow> first_match s t cur vs = JNull"
proof (induction vs arbitrary: cur)
  case Nil
  then show ?case by simp
next
  case (Cons v vs)
  from Cons.prems have "\<not> matches_at cur s t (v # vs) 0" by auto
  then have nm: "\<not> node_matches s t (if suite_like v then node_name v else cur) v"
    by (simp add: matches_at_0)
  have "\<forall>i<length vs. \<not> matches_at (if suite_like v then node_name v else cur) s t vs i"
  proof (intro allI impI)
    fix i assume "i < length vs"
    then have "Suc i < length (v # vs)" by simp
    with Cons.prems have "\<not> matches_at cur s t (v # vs) (Suc i)" by blast
    then show "\<not> matches_at (if suite_like v then node_name v else cur) s t vs i"
      by (simp add: matches_at_Suc)
  qed
  then have "first_match s t (if suite_like v then node_name v else cur) vs = JNull"
    by (rule Cons.IH)
  with nm show ?case by (simp add: Let_def)
qed

lemma matches_at_not_null: "matches_at cur s t vs i \<Longrightarrow> vs ! i \<noteq> JNull"
  by (auto simp: matches_at_def node_matches_def has_uid_def)

text \<open>The scan returns the node at the least matching position, and \<^verbatim>\<open>None\<close> when no
  position matches.\<close>

lemma first_match_cases:
  obtains
    (none) "\<forall>i<length vs. \<not> matches_at cur s t vs i" and "first_match s t cur vs = JNull"
  | (found) i where "i < length vs" and "matches_at cur s t vs i"
      and "\<forall>j<i. \<not> matches_at cur s t vs j" and "first_match s t cur vs = vs ! i"
proof (cases "\<exists>i. i < length vs \<and> matches_at cur s t vs i")
  case True
  then obtain i where i: "i < length vs \<and> matches_at cur s t vs i"
    and least: "\<forall>j<i. \<not> (j < length vs \<and> matches_at cur s t vs j)"
    using exists_least_iff [of "\<lambda>i. i < length vs \<and> matches_at cur s t vs i"] by blast
  from i least have min: "\<forall>j<i. \<not> matches_at cur s t vs j"
    using less_trans by blast
  from i min have "first_match s t cur vs = vs ! i"
    using first_match_least [of i vs cur s t] by blast
  with i min show ?thesis using found by blast
next
  case False
  then have no: "\<forall>i<length vs. \<not> matches_at cur s t vs i" by blast
  then have "first_match s t cur vs = JNull" by (rule first_match_none)
  with no show ?thesis using none by blast
qed

lemma find_test_scan:
  "wf_node tree \<Longrightarrow>
     find_test_in_data tree s t = Inr (first_match s t JNull (visit_order tree))"
  using find_loop_first_match [of "[tree]" JNull s t] by (simp add: find_test_in_data_def)



text \<open>
  C3. The context in force at a visited node is the name of the most recently visited
  suite-like node, that node included (\<open>context_after\<close> over the visits up to and
  including it): a later suite-like node replaces an earlier one, and nothing restores
  the earlier one. The locator returns a node exactly when it is the first visited node
  for which that context equals \<open>suite_name\<close>, the name equals \<open>test_name\<close> and a
  \<^verbatim>\<open>uid\<close> is present.
\<close>

theorem find_test_flat_context:
  assumes "wf_node tree"
  shows "(find_test_in_data tree suite_name test_name = Inr n \<and> n \<noteq> JNull) \<longleftrightarrow>
     (\<exists>i<length (visit_order tree).
        n = visit_order tree ! i
        \<and> context_after JNull (take (Suc i) (visit_order tree)) = JStr suite_name
        \<and> node_name n = JStr test_name \<and> has_uid n
        \<and> (\<forall>j<i. \<not> (context_after JNull (take (Suc j) (visit_order tree)) = JStr suite_name
                      \<and> node_name (visit_order tree ! j) = JStr test_name
                      \<and> has_uid (visit_order tree ! j))))"
proof -
  define vs where "vs = visit_order tree"
  have scan: "find_test_in_data tree suite_name test_name =
      Inr (first_match suite_name test_name JNull vs)"
    unfolding vs_def using assms by (rule find_test_scan)
  have "(first_match suite_name test_name JNull vs = n \<and> n \<noteq> JNull) \<longleftrightarrow>
     (\<exists>i<length vs. n = vs ! i \<and> matches_at JNull suite_name test_name vs i
        \<and> (\<forall>j<i. \<not> matches_at JNull suite_name test_name vs j))"
  proof
    assume l: "first_match suite_name test_name JNull vs = n \<and> n \<noteq> JNull"
    show "\<exists>i<length vs. n = vs ! i \<and> matches_at JNull suite_name test_name vs i
        \<and> (\<forall>j<i. \<not> matches_at JNull suite_name test_name vs j)"
    proof (cases rule: first_match_cases
        [where vs = vs and cur = JNull and s = suite_name and t = test_name])
      case none
      with l show ?thesis by auto
    next
      case (found i)
      with l show ?thesis by auto
    qed
  next
    assume "\<exists>i<length vs. n = vs ! i \<and> matches_at JNull suite_name test_name vs i
        \<and> (\<forall>j<i. \<not> matches_at JNull suite_name test_name vs j)"
    then obtain i where i: "i < length vs" "n = vs ! i"
      "matches_at JNull suite_name test_name vs i"
      "\<forall>j<i. \<not> matches_at JNull suite_name test_name vs j" by blast
    then have "first_match suite_name test_name JNull vs = n"
      using first_match_least [of i vs JNull suite_name test_name] by simp
    moreover have "n \<noteq> JNull"
      using matches_at_not_null [OF i(3)] i(2) by simp
    ultimately show "first_match suite_name test_name JNull vs = n \<and> n \<noteq> JNull" ..
  qed
  then show ?thesis
    unfolding scan matches_at_def node_matches_def vs_def [symmetric] by auto
qed

theorem find_test_flat_context_witness:
  "wf_node twin_suites
   \<and> (\<exists>i<length (visit_order twin_suites).
        twin_second = visit_order twin_suites ! i
        \<and> context_after JNull (take (Suc i) (visit_order twin_suites)) = JStr ''TestSuiteA''
        \<and> node_name twin_second = JStr ''test_a'' \<and> has_uid twin_second
        \<and> (\<forall>j<i. \<not> (context_after JNull (take (Suc j) (visit_order twin_suites))
                         = JStr ''TestSuiteA''
                      \<and> node_name (visit_order twin_suites ! j) = JStr ''test_a''
                      \<and> has_uid (visit_order twin_suites ! j))))"
proof -
  have wf: "wf_node twin_suites" by code_simp
  have "find_test_in_data twin_suites ''TestSuiteA'' ''test_a'' = Inr twin_second
        \<and> twin_second \<noteq> JNull"
    by code_simp
  with find_test_flat_context [OF wf, of "''TestSuiteA''" "''test_a''" twin_second] wf
  show ?thesis by blast
qed

text \<open>
  C1, as stated: the target is listed exactly once, with a \<^verbatim>\<open>uid\<close>, among the children of
  the suite named \<open>suite_name\<close>, and is the only node of that name in the tree; the
  locator still returns \<^verbatim>\<open>None\<close>, because a suite-like sibling listed after the target
  is visited before it and replaces the context.
\<close>

theorem unique_target_missed:
  "wf_node suite_with_nested
   \<and> target_occurrences ''TestSuiteA'' ''test_a'' suite_with_nested = [leaf_test_a]
   \<and> filter (\<lambda>n. node_name n = JStr ''test_a'' \<and> has_uid n) (visit_order suite_with_nested)
       = [leaf_test_a]
   \<and> find_test_in_data suite_with_nested ''TestSuiteA'' ''test_a'' = Inr JNull"
  by code_simp

text \<open>
  C1, amended. When exactly one visited node matches under the flat context (the name
  of the most recently visited suite-like node, that node included), the locator returns
  that node, and the node carries the \<^verbatim>\<open>uid\<close>.
\<close>

theorem unique_match_found:
  assumes "wf_node tree"
    and "i < length (visit_order tree)"
    and "matches_at JNull suite_name test_name (visit_order tree) i"
    and "\<forall>j<length (visit_order tree).
           matches_at JNull suite_name test_name (visit_order tree) j \<longrightarrow> j = i"
  shows "find_test_in_data tree suite_name test_name = Inr (visit_order tree ! i)
         \<and> has_uid (visit_order tree ! i)"
proof -
  have "\<forall>j<i. \<not> matches_at JNull suite_name test_name (visit_order tree) j"
    using assms(2,4) by (metis less_trans less_irrefl)
  with assms(2,3)
  have "first_match suite_name test_name JNull (visit_order tree) = visit_order tree ! i"
    by (intro first_match_least)
  moreover have "has_uid (visit_order tree ! i)"
    using assms(3) by (simp add: matches_at_def node_matches_def)
  ultimately show ?thesis using find_test_scan [OF assms(1)] by simp
qed

theorem unique_match_found_witness:
  "wf_node scenario_tree
   \<and> (1::nat) < length (visit_order scenario_tree)
   \<and> matches_at JNull ''TestSuitePaginationScansList'' ''test_scans_list_artifact_pagination''
        (visit_order scenario_tree) 1
   \<and> find_test_in_data scenario_tree
        ''TestSuitePaginationScansList'' ''test_scans_list_artifact_pagination''
       = Inr scenario_test
   \<and> has_uid scenario_test"
proof -
  have wf: "wf_node scenario_tree" by code_simp
  have vo: "visit_order scenario_tree = [scenario_tree, scenario_test]" by code_simp
  have m0: "\<not> matches_at JNull ''TestSuitePaginationScansList''
      ''test_scans_list_artifact_pagination'' [scenario_tree, scenario_test] 0"
    by code_simp
  have m1: "matches_at JNull ''TestSuitePaginationScansList''
      ''test_scans_list_artifact_pagination'' [scenario_tree, scenario_test] (Suc 0)"
    by code_simp
  have len: "(1::nat) < length (visit_order scenario_tree)" by (simp add: vo)
  have uniq: "\<forall>j<length (visit_order scenario_tree).
      matches_at JNull ''TestSuitePaginationScansList'' ''test_scans_list_artifact_pagination''
        (visit_order scenario_tree) j \<longrightarrow> j = 1"
    using m0 by (auto simp: vo less_Suc_eq)
  have m: "matches_at JNull ''TestSuitePaginationScansList''
      ''test_scans_list_artifact_pagination'' (visit_order scenario_tree) 1"
    using m1 by (simp add: vo)
  from unique_match_found [OF wf len m uniq] wf len m show ?thesis by (simp add: vo)
qed

text \<open>
  C9. On a well-formed tree in which no visited node matches, the locator terminates
  with \<^verbatim>\<open>None\<close>: the result is a value, not an exception.
\<close>

theorem no_match_returns_none:
  assumes "wf_node tree"
    and "\<forall>i<length (visit_order tree).
           \<not> matches_at JNull suite_name test_name (visit_order tree) i"
  shows "find_test_in_data tree suite_name test_name = Inr JNull"
  using find_test_scan [OF assms(1), of suite_name test_name] first_match_none [OF assms(2)]
  by simp

theorem no_match_returns_none_witness:
  "wf_node scenario_tree
   \<and> \<not> matches_at JNull ''TestSuitePaginationScansList'' ''test_unknown''
         (visit_order scenario_tree) 0
   \<and> \<not> matches_at JNull ''TestSuitePaginationScansList'' ''test_unknown''
         (visit_order scenario_tree) 1
   \<and> length (visit_order scenario_tree) = 2
   \<and> find_test_in_data scenario_tree ''TestSuitePaginationScansList'' ''test_unknown''
       = Inr JNull"
proof -
  have wf: "wf_node scenario_tree" by code_simp
  have vo: "visit_order scenario_tree = [scenario_tree, scenario_test]" by code_simp
  have m0: "\<not> matches_at JNull ''TestSuitePaginationScansList'' ''test_unknown''
      [scenario_tree, scenario_test] 0"
    by code_simp
  have m1: "\<not> matches_at JNull ''TestSuitePaginationScansList'' ''test_unknown''
      [scenario_tree, scenario_test] (Suc 0)"
    by code_simp
  have none: "\<forall>i<length (visit_order scenario_tree).
      \<not> matches_at JNull ''TestSuitePaginationScansList'' ''test_unknown''
          (visit_order scenario_tree) i"
    using m0 m1 by (auto simp: vo less_Suc_eq)
  from no_match_returns_none [OF wf none] wf m0 m1 show ?thesis by (simp add: vo)
qed

section \<open>Properties of the Attachment Locator\<close>










declare search_steps.simps(2) [simp del]
declare search_stages.simps(2) [simp del]












lemma find_loop_snoc_other:
  "\<not> is_dict x \<Longrightarrow> find_loop (st @ [x]) cur s t = find_loop st cur s t"
  by (subst find_loop.simps) (cases x; simp add: is_dict_def)

lemma find_loop_snoc_dict:
  "find_loop (st @ [JObj d]) cur s t =
     (case (case py_in ''TestSuite'' (node_name (JObj d)) of
              Inl e \<Rightarrow> Inl e
            | Inr True \<Rightarrow> Inr True
            | Inr False \<Rightarrow> py_in ''Test'' (node_name (JObj d))) of
        Inl e \<Rightarrow> Inl e
      | Inr b \<Rightarrow>
         if (if b then node_name (JObj d) else cur) = JStr s
            \<and> node_name (JObj d) = JStr t \<and> ''uid'' \<in> fst ` set d
         then Inr (JObj d)
         else if ''children'' \<in> fst ` set d
         then (case py_iter (the (map_of d ''children'')) of
                 Inl e \<Rightarrow> Inl e
               | Inr cs \<Rightarrow>
                   find_loop (st @ cs) (if b then node_name (JObj d) else cur) s t)
         else find_loop st (if b then node_name (JObj d) else cur) s t)"
  by (subst find_loop.simps)
    (simp add: Let_def node_name_def del: py_in.simps
      cong del: sum.case_cong_weak bool.case_cong_weak if_weak_cong)

lemma find_loop_result:
  "find_loop stack cur s t = Inr r \<Longrightarrow> r = JNull \<or> (has_uid r \<and> node_name r = JStr t)"
proof (induction stack arbitrary: cur rule: measure_induct_rule [of lweight])
  case (less stack)
  show ?case
  proof (cases stack rule: rev_cases)
    case Nil
    with less.prems show ?thesis by (simp add: find_loop_Nil)
  next
    case (snoc st x)
    have pop: "lweight st < lweight stack"
      using pop_decreases [of stack] snoc by simp
    show ?thesis
    proof (cases x)
      case (JObj d)
      let ?nm = "node_name (JObj d)"
      let ?sl = "case py_in ''TestSuite'' ?nm of
              Inl e \<Rightarrow> Inl e
            | Inr True \<Rightarrow> Inr True
            | Inr False \<Rightarrow> py_in ''Test'' ?nm"
      from less.prems have run: "find_loop (st @ [JObj d]) cur s t = Inr r"
        by (simp add: snoc JObj)
      show ?thesis
      proof (cases ?sl)
        case (Inl e)
        with run show ?thesis by (simp add: find_loop_snoc_dict del: py_in.simps)
      next
        case (Inr b)
        let ?cur = "if b then ?nm else cur"
        show ?thesis
        proof (cases "?cur = JStr s \<and> ?nm = JStr t \<and> ''uid'' \<in> fst ` set d")
          case True
          with run Inr have "r = JObj d" by (simp add: find_loop_snoc_dict del: py_in.simps)
          with True show ?thesis by (simp add: has_uid_def)
        next
          case nomatch: False
          show ?thesis
          proof (cases "''children'' \<in> fst ` set d")
            case True
            then obtain w where w: "(''children'', w) \<in> set d" by auto
            show ?thesis
            proof (cases "py_iter (the (map_of d ''children''))")
              case (Inl e)
              with run Inr nomatch True show ?thesis
                by (simp add: find_loop_snoc_dict del: py_in.simps)
            next
              case cs: (Inr cs)
              have "lweight (butlast stack @ cs) < lweight stack"
                by (rule push_decreases [OF _ _ w cs]) (simp_all add: snoc JObj)
              moreover from run Inr nomatch True cs
              have "find_loop (st @ cs) ?cur s t = Inr r"
                by (simp add: find_loop_snoc_dict del: py_in.simps)
              ultimately show ?thesis using less.IH [of "st @ cs" ?cur] by (simp add: snoc)
            qed
          next
            case False
            with run Inr nomatch have "find_loop st ?cur s t = Inr r"
              by (simp add: find_loop_snoc_dict del: py_in.simps)
            with pop show ?thesis using less.IH [of st ?cur] by simp
          qed
        qed
      qed
    qed (use less.prems less.IH [OF pop, of cur] snoc in
          \<open>simp_all add: find_loop_snoc_other is_dict_def\<close>)
  qed
qed


section \<open>Properties of the Lookup Coordinator\<close>

lemma found_truthy:
  assumes "find_test_in_data data s t = Inr node" and "node \<noteq> JNull"
  shows "truthy node"
proof -
  from assms have "has_uid node"
    using find_loop_result [of "[data]" JNull s t node] by (simp add: find_test_in_data_def)
  then show ?thesis by (cases node) (auto simp: has_uid_def)
qed



lemma try_not_found:
  assumes "fetch_json e (suites_url e p) = Inr data"
    and "find_test_in_data data s t = Inr JNull"
  shows "try_block e p s t =
     (Inr JNull,
      [LogInfo (''Fetching suites from: '' @ suites_url e p), HttpGet (suites_url e p),
       LogError (''Test not found: '' @ s @ ''/'' @ t)])"
  using assms by (simp add: try_block_def Let_def)

lemma try_falsy_uid:
  assumes "fetch_json e (suites_url e p) = Inr data"
    and "find_test_in_data data s t = Inr node"
    and "py_get node ''uid'' = Inr uid"
    and "\<not> truthy uid"
  shows "try_block e p s t =
     (Inr JNull,
      [LogInfo (''Fetching suites from: '' @ suites_url e p), HttpGet (suites_url e p)])"
proof -
  from assms(3) have "node \<noteq> JNull" by (auto simp: py_get_def)
  with assms(2) have "truthy node" by (rule found_truthy)
  with assms show ?thesis by (simp add: try_block_def Let_def)
qed

lemma try_second_fetch:
  assumes "fetch_json e (suites_url e p) = Inr data"
    and "find_test_in_data data s t = Inr node"
    and "py_get node ''uid'' = Inr uid"
    and "truthy uid"
  shows "try_block e p s t =
     (let log2 = [LogInfo (''Fetching suites from: '' @ suites_url e p),
                  HttpGet (suites_url e p),
                  LogInfo (''Fetching test details from: '' @ result_url e p uid),
                  HttpGet (result_url e p uid)]
      in
      case fetch_json e (result_url e p uid) of
        Inl err \<Rightarrow> (Inl err, log2)
      | Inr result_data \<Rightarrow>
         (case get_attachment_by_name result_data ''Test Tracing'' of
            Inl err \<Rightarrow> (Inl err, log2)
          | Inr attachment_dict \<Rightarrow>
             (case (if truthy attachment_dict then py_get attachment_dict ''source''
                    else Inr JNull) of
                Inl err \<Rightarrow> (Inl err, log2)
              | Inr source \<Rightarrow>
                 (Inr source,
                  log2 @ [LogInfo (''Found attachment: '' @ format_value e source)]))))"
proof -
  from assms(3) have "node \<noteq> JNull" by (auto simp: py_get_def)
  with assms(2) have "truthy node" by (rule found_truthy)
  with assms show ?thesis by (simp add: try_block_def Let_def)
qed


lemma returned:
  assumes "try_block e p s t = (Inr v, log)"
  shows "get_test_attachments e p s t = (v, log)"
  using assms by (simp add: get_test_attachments_def)



text \<open>
  C6. When the first fetch succeeds and the Suite Locator returns \<^verbatim>\<open>None\<close>, the
  coordinator logs the miss and returns \<^verbatim>\<open>None\<close>; the only request it has sent is the one
  for the suite summary.
\<close>

theorem suite_miss_skips_second_fetch:
  assumes "fetch_json e (suites_url e p) = Inr data"
    and "find_test_in_data data s t = Inr JNull"
  shows "get_test_attachments e p s t =
           (JNull,
            [LogInfo (''Fetching suites from: '' @ suites_url e p), HttpGet (suites_url e p),
             LogError (''Test not found: '' @ s @ ''/'' @ t)])
         \<and> requests_sent (snd (get_test_attachments e p s t)) = [suites_url e p]"
  using returned [OF try_not_found [OF assms]] by simp

theorem suite_miss_skips_second_fetch_witness:
  "fetch_json scenario_env (suites_url scenario_env ''P1'') = Inr scenario_tree
   \<and> find_test_in_data scenario_tree ''TestSuitePaginationScansList'' ''test_unknown''
       = Inr JNull
   \<and> fst (get_test_attachments scenario_env ''P1'' ''TestSuitePaginationScansList''
            ''test_unknown'') = JNull
   \<and> requests_sent (snd (get_test_attachments scenario_env ''P1''
            ''TestSuitePaginationScansList'' ''test_unknown''))
       = [suites_url scenario_env ''P1'']"
proof -
  have s: "fetch_json scenario_env (suites_url scenario_env ''P1'') = Inr scenario_tree"
    by code_simp
  have l: "find_test_in_data scenario_tree ''TestSuitePaginationScansList'' ''test_unknown''
      = Inr JNull"
    by code_simp
  from suite_miss_skips_second_fetch [OF s l] s l show ?thesis by simp
qed

text \<open>
  C7. With the suite-summary tree and the execution record of the scenario served for
  project P1 and uid abc123, the coordinator returns \<^verbatim>\<open>trace-file-xyz.zip\<close>. Whatever record
  is served for that uid, the value returned is the \<^verbatim>\<open>source\<close> of what the Attachment
  Locator finds under the name \<^verbatim>\<open>Test Tracing\<close>, and \<^verbatim>\<open>None\<close> when it finds nothing.
\<close>

theorem end_to_end_scenario:
  assumes "fetch_json e (suites_url e ''P1'') = Inr scenario_tree"
    and "fetch_json e (result_url e ''P1'' (JStr ''abc123'')) = Inr rd"
  shows "fst (get_test_attachments e ''P1'' ''TestSuitePaginationScansList''
               ''test_scans_list_artifact_pagination'')
         = (case get_attachment_by_name rd ''Test Tracing'' of
              Inl err \<Rightarrow> JNull
            | Inr a \<Rightarrow>
               if truthy a
               then (case py_get a ''source'' of Inl err \<Rightarrow> JNull | Inr v \<Rightarrow> v)
               else JNull)
         \<and> (rd = scenario_record \<longrightarrow>
              fst (get_test_attachments e ''P1'' ''TestSuitePaginationScansList''
                    ''test_scans_list_artifact_pagination'')
              = JStr ''trace-file-xyz.zip'')"
proof -
  have l: "find_test_in_data scenario_tree ''TestSuitePaginationScansList''
      ''test_scans_list_artifact_pagination'' = Inr scenario_test"
    by code_simp
  have u: "py_get scenario_test ''uid'' = Inr (JStr ''abc123'')" by code_simp
  have t: "truthy (JStr ''abc123'')" by simp
  have a: "get_attachment_by_name scenario_record ''Test Tracing'' = Inr scenario_attachment"
    by code_simp
  have src: "py_get scenario_attachment ''source'' = Inr (JStr ''trace-file-xyz.zip'')"
    by code_simp
  have ta: "truthy scenario_attachment" by code_simp
  have general: "fst (get_test_attachments e ''P1'' ''TestSuitePaginationScansList''
               ''test_scans_list_artifact_pagination'')
         = (case get_attachment_by_name rd ''Test Tracing'' of
              Inl err \<Rightarrow> JNull
            | Inr a \<Rightarrow>
               if truthy a
               then (case py_get a ''source'' of Inl err \<Rightarrow> JNull | Inr v \<Rightarrow> v)
               else JNull)"
    by (simp add: get_test_attachments_def try_second_fetch [OF assms(1) l u t] assms(2)
        Let_def split: sum.split)
  show ?thesis
  proof (intro conjI impI)
    show "fst (get_test_attachments e ''P1'' ''TestSuitePaginationScansList''
               ''test_scans_list_artifact_pagination'')
         = (case get_attachment_by_name rd ''Test Tracing'' of
              Inl err \<Rightarrow> JNull
            | Inr a \<Rightarrow>
               if truthy a
               then (case py_get a ''source'' of Inl err \<Rightarrow> JNull | Inr v \<Rightarrow> v)
               else JNull)"
      by (rule general)
    assume "rd = scenario_record"
    then show "fst (get_test_attachments e ''P1'' ''TestSuitePaginationScansList''
                    ''test_scans_list_artifact_pagination'')
              = JStr ''trace-file-xyz.zip''"
      unfolding general by (simp add: a ta src)
  qed
qed

theorem end_to_end_scenario_witness:
  "fetch_json scenario_env (suites_url scenario_env ''P1'') = Inr scenario_tree
   \<and> fetch_json scenario_env (result_url scenario_env ''P1'' (JStr ''abc123''))
       = Inr scenario_record
   \<and> fst (get_test_attachments scenario_env ''P1'' ''TestSuitePaginationScansList''
            ''test_scans_list_artifact_pagination'')
       = JStr ''trace-file-xyz.zip''"
proof -
  have s: "fetch_json scenario_env (suites_url scenario_env ''P1'') = Inr scenario_tree"
    by code_simp
  have r: "fetch_json scenario_env (result_url scenario_env ''P1'' (JStr ''abc123''))
      = Inr scenario_record"
    by code_simp
  from end_to_end_scenario [OF s r] s r show ?thesis by blast
qed

text \<open>
  C10. A node that the Suite Locator returns has a \<^verbatim>\<open>uid\<close> key; when the value under that
  key is falsy, the coordinator returns \<^verbatim>\<open>None\<close> and the only request it has sent is the
  one for the suite summary.
\<close>

theorem falsy_uid_absent:
  assumes "fetch_json e (suites_url e p) = Inr data"
    and "find_test_in_data data s t = Inr node"
    and "py_get node ''uid'' = Inr uid"
    and "\<not> truthy uid"
  shows "get_test_attachments e p s t =
           (JNull,
            [LogInfo (''Fetching suites from: '' @ suites_url e p), HttpGet (suites_url e p)])
         \<and> requests_sent (snd (get_test_attachments e p s t)) = [suites_url e p]
         \<and> has_uid node"
proof -
  from assms(3) have "node \<noteq> JNull" by (auto simp: py_get_def)
  then have "has_uid node"
    using assms(2) find_loop_result [of "[data]" JNull s t node]
    by (simp add: find_test_in_data_def)
  then show ?thesis using returned [OF try_falsy_uid [OF assms]] by simp
qed

theorem falsy_uid_absent_witness:
  "fetch_json empty_uid_env (suites_url empty_uid_env ''P1'') = Inr empty_uid_tree
   \<and> find_test_in_data empty_uid_tree ''TestSuiteA'' ''test_a'' = Inr empty_uid_test
   \<and> py_get empty_uid_test ''uid'' = Inr (JStr [])
   \<and> fst (get_test_attachments empty_uid_env ''P1'' ''TestSuiteA'' ''test_a'') = JNull
   \<and> requests_sent (snd (get_test_attachments empty_uid_env ''P1'' ''TestSuiteA'' ''test_a''))
       = [suites_url empty_uid_env ''P1'']"
proof -
  have s: "fetch_json empty_uid_env (suites_url empty_uid_env ''P1'') = Inr empty_uid_tree"
    by code_simp
  have l: "find_test_in_data empty_uid_tree ''TestSuiteA'' ''test_a'' = Inr empty_uid_test"
    by code_simp
  have u: "py_get empty_uid_test ''uid'' = Inr (JStr [])" by code_simp
  have f: "\<not> truthy (JStr [])" by simp
  from falsy_uid_absent [OF s l u f] s l u show ?thesis by simp
qed

end
